theory Spec2Isabelle
  imports Complex_Main "HOL-Library.Word"
begin

section \<open>Common data\<close>

text \<open>
  A JavaScript string is a sequence of UTF-16 code units; \<open>length\<close> is its
  \<^verbatim>\<open>.length\<close> and \<open>take i\<close> is \<^verbatim>\<open>.slice(0, i)\<close> for \<open>i \<ge> 0\<close>.
  A JavaScript number is modelled as a real: the arithmetic below is the source's
  arithmetic without IEEE rounding and without the non-finite values.
\<close>

type_synonym jsstring = "16 word list"

definition js :: "string \<Rightarrow> jsstring" where
  "js s = map of_char s"

section \<open>TiltCard: pointer-driven tilt and glow\<close>

record tilt =
  rx :: real
  ry :: real
  glowX :: real
  glowY :: real

text \<open>The part of \<^verbatim>\<open>getBoundingClientRect()\<close> and of the pointer event that the handler reads.\<close>

record rect =
  left :: real
  top_edge :: real
  width :: real
  height :: real

record pointer =
  clientX :: real
  clientY :: real

text \<open>\<^verbatim>\<open>useState({ rx: 0, ry: 0, glowX: 50, glowY: 50 })\<close>\<close>

definition tilt_init :: tilt where
  "tilt_init = \<lparr>rx = 0, ry = 0, glowX = 50, glowY = 50\<rparr>"

text \<open>
  \<^verbatim>\<open>onMove\<close>: the new tilt state written by \<^verbatim>\<open>setTilt\<close>. For a rectangle of width or
  height zero the source divides by zero and produces a non-finite number, which this
  model does not represent; the theorems about \<open>onMove\<close> assume a positive size.
\<close>

definition onMove :: "rect \<Rightarrow> pointer \<Rightarrow> tilt" where
  "onMove r e =
     (let px = (clientX e - left r) / width r;
          py = (clientY e - top_edge r) / height r;
          ry = (px - 0.5) * 10;
          rx = - (py - 0.5) * 10
      in \<lparr>rx = rx, ry = ry, glowX = px * 100, glowY = py * 100\<rparr>)"

text \<open>\<^verbatim>\<open>onLeave\<close>: the handler ignores the state it replaces.\<close>

definition onLeave :: "tilt \<Rightarrow> tilt" where
  "onLeave prev = \<lparr>rx = 0, ry = 0, glowX = 50, glowY = 50\<rparr>"

text \<open>
  The card as a state machine. \<open>reduced\<close> is the state of \<^verbatim>\<open>useReducedMotionPref\<close>
  (\<^verbatim>\<open>useState(false)\<close>, then set from the media query); the effect attaches the two
  listeners only while it is false, so a pointer event on a card with reduced motion
  reaches no handler.
\<close>

record card =
  reduced :: bool
  card_tilt :: tilt

datatype card_event =
    MediaPref bool
  | PointerMove rect pointer
  | PointerLeave

definition card_init :: card where
  "card_init = \<lparr>reduced = False, card_tilt = tilt_init\<rparr>"

fun card_step :: "card \<Rightarrow> card_event \<Rightarrow> card" where
  "card_step c (MediaPref b) = c\<lparr>reduced := b\<rparr>"
| "card_step c (PointerMove r e) =
     (if reduced c then c else c\<lparr>card_tilt := onMove r e\<rparr>)"
| "card_step c PointerLeave =
     (if reduced c then c else c\<lparr>card_tilt := onLeave (card_tilt c)\<rparr>)"

definition card_run :: "card_event list \<Rightarrow> card" where
  "card_run evs = foldl card_step card_init evs"

text \<open>The pointer is inside the card's bounding box (which has a positive area).\<close>

definition within_card :: "rect \<Rightarrow> pointer \<Rightarrow> bool" where
  "within_card r e \<longleftrightarrow>
     0 < width r \<and> 0 < height r \<and>
     left r \<le> clientX e \<and> clientX e \<le> left r + width r \<and>
     top_edge r \<le> clientY e \<and> clientY e \<le> top_edge r + height r"

fun event_within :: "card_event \<Rightarrow> bool" where
  "event_within (PointerMove r e) = within_card r e"
| "event_within _ = True"

definition tilt_bounded :: "tilt \<Rightarrow> bool" where
  "tilt_bounded t \<longleftrightarrow>
     - 5 \<le> rx t \<and> rx t \<le> 5 \<and> - 5 \<le> ry t \<and> ry t \<le> 5 \<and>
     0 \<le> glowX t \<and> glowX t \<le> 100 \<and> 0 \<le> glowY t \<and> glowY t \<le> 100"

section \<open>MouseGlow: the clamped centre of the page-wide glow\<close>

text \<open>
  The transform of \<^verbatim>\<open>useTransform([sx, sy], ...)\<close>: the two percentages that are
  interpolated into the \<^verbatim>\<open>radial-gradient(900px circle at px% py%, ...)\<close> string.
\<close>

definition bg_center :: "real \<Rightarrow> real \<Rightarrow> real \<times> real" where
  "bg_center lx ly =
     (let px = max 0 (min 100 lx);
          py = max 0 (min 100 ly)
      in (px, py))"

section \<open>ContactForm: validation and the simulated submission\<close>

text \<open>
  The code units matched by \<^verbatim>\<open>\s\<close> in a regular expression and stripped by
  \<^verbatim>\<open>String.prototype.trim\<close>: ECMAScript's WhiteSpace and LineTerminator (tab, LF, VT,
  FF, CR, space, NBSP, the other space separators, LS, PS and the byte order mark).
\<close>

definition isWhiteSpace :: "16 word \<Rightarrow> bool" where
  "isWhiteSpace c \<longleftrightarrow>
     c = 0x09 \<or> c = 0x0A \<or> c = 0x0B \<or> c = 0x0C \<or> c = 0x0D \<or> c = 0x20 \<or> c = 0xA0 \<or>
     c = 0x1680 \<or> (0x2000 \<le> c \<and> c \<le> 0x200A) \<or> c = 0x2028 \<or> c = 0x2029 \<or>
     c = 0x202F \<or> c = 0x205F \<or> c = 0x3000 \<or> c = 0xFEFF"

definition trim :: "jsstring \<Rightarrow> jsstring" where
  "trim s = rev (dropWhile isWhiteSpace (rev (dropWhile isWhiteSpace s)))"

text \<open>
  A regular expression of the form \<^verbatim>\<open>/^a1 a2 ... an$/\<close>, each \<open>ai\<close> a character class
  taken once or with \<^verbatim>\<open>+\<close>, and \<^verbatim>\<open>.test\<close> on it as the backtracking matcher runs:
  \<^verbatim>\<open>+\<close> takes one code unit of its class and then either goes on with the same class
  (greedy, tried first) or with the rest of the pattern; the empty pattern is \<^verbatim>\<open>$\<close>.
\<close>

datatype quantifier = Once | OneOrMore

type_synonym atom = "(16 word \<Rightarrow> bool) \<times> quantifier"

fun re_test :: "atom list \<Rightarrow> jsstring \<Rightarrow> bool" where
  "re_test [] s = (s = [])"
| "re_test ((p, q) # r) [] = False"
| "re_test ((p, Once) # r) (c # s) = (p c \<and> re_test r s)"
| "re_test ((p, OneOrMore) # r) (c # s) =
     (p c \<and> (re_test ((p, OneOrMore) # r) s \<or> re_test r s))"

text \<open>The class \<^verbatim>\<open>[^\s@]\<close>, and the expression \<^verbatim>\<open>/^[^\s@]+@[^\s@]+\.[^\s@]+$/\<close>.\<close>

definition notSpaceAt :: "16 word \<Rightarrow> bool" where
  "notSpaceAt c \<longleftrightarrow> \<not> isWhiteSpace c \<and> c \<noteq> 0x40"

definition email_re :: "atom list" where
  "email_re =
     [(notSpaceAt, OneOrMore), (\<lambda>c. c = 0x40, Once),
      (notSpaceAt, OneOrMore), (\<lambda>c. c = 0x2E, Once),
      (notSpaceAt, OneOrMore)]"

datatype status = Idle | Sending | Sent

record form =
  name :: jsstring
  email :: jsstring
  company :: jsstring
  goal :: jsstring
  message :: jsstring
  status :: status

text \<open>The six \<^verbatim>\<open>useState\<close> initial values.\<close>

definition form_init :: form where
  "form_init =
     \<lparr>name = [], email = [], company = [], goal = js ''Crescer com performance'',
      message = [], status = Idle\<rparr>"

definition canSend :: "form \<Rightarrow> bool" where
  "canSend f =
     (let okEmail = re_test email_re (trim (email f))
      in 2 \<le> length (trim (name f)) \<and> okEmail \<and> 10 \<le> length (trim (message f))
         \<and> status f \<noteq> Sending)"

text \<open>
  \<^verbatim>\<open>onSubmit\<close> is an async function with two awaited timers. Its three synchronous
  segments are state transformers: the first one runs at the submit event and is
  refused (\<open>None\<close>, the early \<^verbatim>\<open>return\<close>) when \<^verbatim>\<open>canSend\<close> is false, the second one runs
  when the 650 ms timer fires, the third one when the 900 ms timer fires.
  \<^verbatim>\<open>e.preventDefault()\<close> acts on the event only and is left out.
\<close>

definition onSubmit_start :: "form \<Rightarrow> form option" where
  "onSubmit_start f = (if \<not> canSend f then None else Some (f\<lparr>status := Sending\<rparr>))"

definition onSubmit_after_650 :: "form \<Rightarrow> form" where
  "onSubmit_after_650 f = f\<lparr>status := Sent\<rparr>"

definition onSubmit_after_900 :: "form \<Rightarrow> form" where
  "onSubmit_after_900 f =
     f\<lparr>status := Idle, name := [], email := [], company := [],
       goal := js ''Crescer com performance'', message := []\<rparr>"

text \<open>
  The page around the form: the draft, the timers that are pending with the time (in
  ms) at which each is due, in firing order, and the current time. A timer stands for
  the rest of the run of \<^verbatim>\<open>onSubmit\<close> that awaits it: \<open>Latency\<close> is the 650 ms timer,
  after which the run writes \<^verbatim>\<open>sent\<close> and awaits the 900 ms timer \<open>Confirm\<close>, after which
  it resets the draft. Several runs can be pending at once.
\<close>

datatype timer = Latency | Confirm

record page =
  draft :: form
  pending :: "(nat \<times> timer) list"
  now :: nat

text \<open>Timers fire in the order of their due times, and of their creation when these are equal.\<close>

fun schedule :: "nat \<times> timer \<Rightarrow> (nat \<times> timer) list \<Rightarrow> (nat \<times> timer) list" where
  "schedule t [] = [t]"
| "schedule t (u # us) = (if fst t < fst u then t # u # us else u # schedule t us)"

definition setTimeout :: "timer \<Rightarrow> nat \<Rightarrow> page \<Rightarrow> page" where
  "setTimeout k ms p = p\<lparr>pending := schedule (now p + ms, k) (pending p)\<rparr>"

text \<open>The submit event: \<^verbatim>\<open>onSubmit\<close> up to its first \<^verbatim>\<open>await\<close>.\<close>

definition onSubmit :: "page \<Rightarrow> page" where
  "onSubmit p =
     (case onSubmit_start (draft p) of
        None \<Rightarrow> p
      | Some f1 \<Rightarrow> setTimeout Latency 650 (p\<lparr>draft := f1\<rparr>))"

text \<open>A timer fires: the run that awaits it goes on to its next \<^verbatim>\<open>await\<close> or to its end.\<close>

fun resume :: "timer \<Rightarrow> page \<Rightarrow> page" where
  "resume Latency p = setTimeout Confirm 900 (p\<lparr>draft := onSubmit_after_650 (draft p)\<rparr>)"
| "resume Confirm p = p\<lparr>draft := onSubmit_after_900 (draft p)\<rparr>"

definition timer_weight :: "nat \<times> timer \<Rightarrow> nat" where
  "timer_weight t = (case snd t of Latency \<Rightarrow> 2 | Confirm \<Rightarrow> 1)"

text \<open>Time passes until \<open>t\<close>: the timers due by then fire in order.\<close>

function run_until :: "nat \<Rightarrow> page \<Rightarrow> page" where
  "run_until t p =
     (case pending p of
        [] \<Rightarrow> p\<lparr>now := t\<rparr>
      | (due, k) # rest \<Rightarrow>
          if due \<le> t then run_until t (resume k (p\<lparr>pending := rest, now := due\<rparr>))
          else p\<lparr>now := t\<rparr>)"
  by pat_completeness auto

termination run_until
proof (relation "measure (\<lambda>(t, p). sum_list (map timer_weight (pending p)))")
  show "wf (measure (\<lambda>(t, p). sum_list (map timer_weight (pending p))))"
    by simp
next
  fix t :: nat and p :: page and x :: "nat \<times> timer" and rest due k
  assume "pending p = x # rest" and "(due, k) = x" and "due \<le> t"
  moreover have "sum_list (map timer_weight (schedule u ts))
      = timer_weight u + sum_list (map timer_weight ts)" for u ts
    by (induction ts) simp_all
  ultimately show "((t, resume k (p\<lparr>pending := rest, now := due\<rparr>)), (t, p))
      \<in> measure (\<lambda>(t, p). sum_list (map timer_weight (pending p)))"
    by (cases k) (auto simp: setTimeout_def timer_weight_def)
qed

declare run_until.simps [simp del]

definition elapse :: "nat \<Rightarrow> page \<Rightarrow> page" where
  "elapse ms p = run_until (now p + ms) p"

text \<open>A filled draft, not yet submitted, on a page with no timer pending.\<close>

definition page_Ana :: page where
  "page_Ana =
     \<lparr>draft = \<lparr>name = js ''Ana'', email = js ''a@b.co'', company = js ''ACME'',
                goal = js ''Reposicionar a marca'', message = js ''1234567890'',
                status = Idle\<rparr>,
      pending = [], now = 0\<rparr>"

text \<open>
  The specification's reading of the e-mail check, to compare with \<open>re_test email_re\<close>:
  a non-empty local part, \<^verbatim>\<open>@\<close>, a non-empty domain, a dot and a non-empty last part,
  none of the three parts containing white space or \<^verbatim>\<open>@\<close>.
\<close>

definition email_shape :: "jsstring \<Rightarrow> bool" where
  "email_shape s \<longleftrightarrow>
     (\<exists>local domain tld.
        s = local @ [0x40] @ domain @ [0x2E] @ tld \<and>
        local \<noteq> [] \<and> domain \<noteq> [] \<and> tld \<noteq> [] \<and>
        list_all notSpaceAt local \<and> list_all notSpaceAt domain \<and> list_all notSpaceAt tld)"

section \<open>useActiveSection: the scroll-spy hook\<close>

text \<open>
  Of an element only its \<^verbatim>\<open>id\<close> is read. The document is the list of its elements in
  tree order; \<^verbatim>\<open>document.getElementById\<close> returns the first element with the given id,
  and nothing for the empty string (an element with an empty \<^verbatim>\<open>id\<close> attribute has no id).
\<close>

record element =
  el_id :: jsstring

type_synonym document = "element list"

definition getElementById :: "document \<Rightarrow> jsstring \<Rightarrow> element option" where
  "getElementById doc i = (if i = [] then None else find (\<lambda>el. el_id el = i) doc)"

text \<open>\<^verbatim>\<open>ids.map((id) => document.getElementById(id)).filter(Boolean)\<close>\<close>

definition els :: "document \<Rightarrow> jsstring list \<Rightarrow> element list" where
  "els doc ids = map the (filter (\<lambda>r. r \<noteq> None) (map (getElementById doc) ids))"

text \<open>An \<^verbatim>\<open>IntersectionObserverEntry\<close>: the fields the callback reads.\<close>

record entry =
  target :: element
  intersectionRatio :: real
  isIntersecting :: bool

text \<open>
  \<^verbatim>\<open>Array.prototype.sort\<close> with a comparator: the sort is stable, so for a consistent
  comparator its result is the one of insertion sort, where \<open>x\<close> stays before \<open>y\<close> unless
  the comparator is positive on \<open>(x, y)\<close>.
\<close>

fun insert_cmp :: "('a \<Rightarrow> 'a \<Rightarrow> real) \<Rightarrow> 'a \<Rightarrow> 'a list \<Rightarrow> 'a list" where
  "insert_cmp cmp x [] = [x]"
| "insert_cmp cmp x (y # ys) =
     (if cmp x y \<le> 0 then x # y # ys else y # insert_cmp cmp x ys)"

fun sort_cmp :: "('a \<Rightarrow> 'a \<Rightarrow> real) \<Rightarrow> 'a list \<Rightarrow> 'a list" where
  "sort_cmp cmp [] = []"
| "sort_cmp cmp (x # xs) = insert_cmp cmp x (sort_cmp cmp xs)"

text \<open>
  The comparator \<^verbatim>\<open>(a, b) => (b.intersectionRatio ?? 0) - (a.intersectionRatio ?? 0)\<close>; the
  ratio of an entry is always a number, so the \<^verbatim>\<open>?? 0\<close> never applies.
\<close>

definition by_ratio_desc :: "entry \<Rightarrow> entry \<Rightarrow> real" where
  "by_ratio_desc a b = intersectionRatio b - intersectionRatio a"

text \<open>
  The observer's callback as a function of the batch and of the current state: the new
  value of \<^verbatim>\<open>active\<close>. \<^verbatim>\<open>[0]\<close> of an empty array is \<^verbatim>\<open>undefined\<close>, and so is falsy like an
  empty id: \<^verbatim>\<open>setActive\<close> is then not called.
\<close>

definition on_entries :: "entry list \<Rightarrow> jsstring \<Rightarrow> jsstring" where
  "on_entries entries active =
     (case sort_cmp by_ratio_desc (filter isIntersecting entries) of
        [] \<Rightarrow> active
      | visible # _ \<Rightarrow>
          if el_id (target visible) \<noteq> [] then el_id (target visible) else active)"

text \<open>\<^verbatim>\<open>ids.join("|")\<close>, the dependency of the hook's effect.\<close>

fun js_join :: "jsstring \<Rightarrow> jsstring list \<Rightarrow> jsstring" where
  "js_join sep [] = []"
| "js_join sep [x] = x"
| "js_join sep (x # y # ys) = x @ sep @ js_join sep (y # ys)"

text \<open>
  The hook's state: \<^verbatim>\<open>active\<close>; the elements its observer observes (none when no
  element resolved: \<^verbatim>\<open>if (!els.length) return\<close> creates no observer); the value of the
  dependency at the last run of the effect; and the id list of the latest render.
\<close>

record tracker =
  active :: jsstring
  observed :: "element list"
  dep :: jsstring
  configured :: "jsstring list"

text \<open>The first render and its effect.\<close>

definition useActiveSection :: "document \<Rightarrow> jsstring list \<Rightarrow> tracker" where
  "useActiveSection doc ids =
     \<lparr>active = (case ids of [] \<Rightarrow> [] | i # _ \<Rightarrow> i), observed = els doc ids,
      dep = js_join (js ''|'') ids, configured = ids\<rparr>"

text \<open>
  A later render with the list \<open>ids\<close>, in the document \<open>doc\<close>: \<^verbatim>\<open>useState\<close> ignores its
  argument, so \<^verbatim>\<open>active\<close> is kept; when the dependency has changed, the cleanup
  disconnects the observer and the effect observes the elements resolved from the new
  list.
\<close>

definition rerender :: "document \<Rightarrow> jsstring list \<Rightarrow> tracker \<Rightarrow> tracker" where
  "rerender doc ids t =
     (if js_join (js ''|'') ids = dep t then t\<lparr>configured := ids\<rparr>
      else t\<lparr>configured := ids, observed := els doc ids, dep := js_join (js ''|'') ids\<rparr>)"

text \<open>The observer delivers a batch: entries whose targets are elements it observes.\<close>

definition deliver :: "tracker \<Rightarrow> entry list \<Rightarrow> tracker" where
  "deliver t entries = t\<lparr>active := on_entries entries (active t)\<rparr>"

definition batch_of :: "element list \<Rightarrow> entry list \<Rightarrow> bool" where
  "batch_of observed_els entries \<longleftrightarrow> (\<forall>e \<in> set entries. target e \<in> set observed_els)"

datatype tracker_event =
    Render document "jsstring list"
  | Deliver "entry list"

fun tracker_step :: "tracker \<Rightarrow> tracker_event \<Rightarrow> tracker" where
  "tracker_step t (Render doc ids) = rerender doc ids t"
| "tracker_step t (Deliver entries) = deliver t entries"

definition tracker_run :: "document \<Rightarrow> jsstring list \<Rightarrow> tracker_event list \<Rightarrow> tracker" where
  "tracker_run doc ids evs = foldl tracker_step (useActiveSection doc ids) evs"

text \<open>Every batch of the run is one of the observer that is connected when it arrives.\<close>

fun observer_batches :: "tracker \<Rightarrow> tracker_event list \<Rightarrow> bool" where
  "observer_batches t [] = True"
| "observer_batches t (Render doc ids # evs) = observer_batches (rerender doc ids t) evs"
| "observer_batches t (Deliver entries # evs) =
     (batch_of (observed t) entries \<and> observer_batches (deliver t entries) evs)"

text \<open>Every render of the run passes the list \<open>ids\<close>.\<close>

fun keeps_ids :: "jsstring list \<Rightarrow> tracker_event \<Rightarrow> bool" where
  "keeps_ids ids (Render doc ids') = (ids' = ids)"
| "keeps_ids ids (Deliver entries) = True"

section \<open>GradientTypeTitle: the typewriter headline\<close>

text \<open>
  The component's state: \<open>tw_reduced\<close> is the state of \<^verbatim>\<open>useReducedMotionPref\<close>, \<open>tw_text\<close>
  and \<open>tw_done\<close> are the two \<^verbatim>\<open>useState\<close> cells, and \<open>tw_timer\<close> is the live interval with
  the value of its counter \<^verbatim>\<open>i\<close> (\<open>None\<close> when no interval is running). The headline
  \<^verbatim>\<open>full\<close> is a parameter.
\<close>

record typewriter =
  tw_reduced :: bool
  tw_text :: jsstring
  tw_done :: bool
  tw_timer :: "nat option"

text \<open>
  The first render. \<^verbatim>\<open>useReducedMotionPref\<close> starts from \<^verbatim>\<open>useState(false)\<close> and reads
  the media query only in its effect, so \<^verbatim>\<open>reduced\<close> is false in the render that
  evaluates the initial values \<^verbatim>\<open>useState(reduced ? full : "")\<close> and \<^verbatim>\<open>useState(reduced)\<close>;
  later renders ignore the arguments of \<^verbatim>\<open>useState\<close>.
\<close>

definition tw_first_render :: "jsstring \<Rightarrow> typewriter" where
  "tw_first_render full =
     (let reduced = False
      in \<lparr>tw_reduced = reduced, tw_text = (if reduced then full else []),
          tw_done = reduced, tw_timer = None\<rparr>)"

text \<open>
  The effect of \<^verbatim>\<open>[reduced]\<close>, preceded by the cleanup of its previous run
  (\<^verbatim>\<open>clearInterval\<close>): it returns at once under reduced motion and otherwise starts an
  interval with \<^verbatim>\<open>i = 0\<close>.
\<close>

definition tw_effect :: "typewriter \<Rightarrow> typewriter" where
  "tw_effect t = (if tw_reduced t then t\<lparr>tw_timer := None\<rparr> else t\<lparr>tw_timer := Some 0\<rparr>)"

text \<open>
  \<^verbatim>\<open>setReduced(mq.matches)\<close>: an unchanged value causes no render; a changed one causes a
  render in which the dependency \<^verbatim>\<open>reduced\<close> of the effect has changed.
\<close>

definition tw_setReduced :: "bool \<Rightarrow> typewriter \<Rightarrow> typewriter" where
  "tw_setReduced b t = (if b = tw_reduced t then t else tw_effect (t\<lparr>tw_reduced := b\<rparr>))"

text \<open>
  Mounting, with \<open>matches\<close> the value of the media query: the first render, then the
  effects of that render (the hook's effect queues \<^verbatim>\<open>setReduced\<close>, the component's effect
  runs with \<^verbatim>\<open>reduced = false\<close>), then the queued update.
\<close>

definition tw_mount :: "jsstring \<Rightarrow> bool \<Rightarrow> typewriter" where
  "tw_mount full matches = tw_setReduced matches (tw_effect (tw_first_render full))"

text \<open>One firing of the interval; a cleared interval does not fire.\<close>

definition tw_tick :: "jsstring \<Rightarrow> typewriter \<Rightarrow> typewriter" where
  "tw_tick full t =
     (case tw_timer t of
        None \<Rightarrow> t
      | Some i0 \<Rightarrow>
          (let i = i0 + 1;
               t' = t\<lparr>tw_text := take i full\<rparr>
           in if i \<ge> length full then t'\<lparr>tw_timer := None, tw_done := True\<rparr>
              else t'\<lparr>tw_timer := Some i\<rparr>))"

fun tw_ticks :: "jsstring \<Rightarrow> nat \<Rightarrow> typewriter \<Rightarrow> typewriter" where
  "tw_ticks full 0 t = t"
| "tw_ticks full (Suc k) t = tw_ticks full k (tw_tick full t)"

section \<open>Properties of the tilt card\<close>

lemma within_card_px:
  assumes "within_card r e"
  shows "0 \<le> (clientX e - left r) / width r" and "(clientX e - left r) / width r \<le> 1"
  using assms by (simp_all add: within_card_def divide_le_eq)

lemma within_card_py:
  assumes "within_card r e"
  shows "0 \<le> (clientY e - top_edge r) / height r" and "(clientY e - top_edge r) / height r \<le> 1"
  using assms by (simp_all add: within_card_def divide_le_eq)

lemma tilt_bounded_of_unit:
  fixes px py :: real
  assumes "0 \<le> px" "px \<le> 1" "0 \<le> py" "py \<le> 1"
  shows "tilt_bounded \<lparr>rx = - (py - 0.5) * 10, ry = (px - 0.5) * 10,
                       glowX = px * 100, glowY = py * 100\<rparr>"
  using assms by (simp add: tilt_bounded_def)

lemma onMove_bounded:
  assumes "within_card r e"
  shows "tilt_bounded (onMove r e)"
  unfolding onMove_def Let_def
  by (rule tilt_bounded_of_unit) (rule within_card_px [OF assms] within_card_py [OF assms])+

lemma tilt_init_bounded: "tilt_bounded tilt_init"
  by (simp add: tilt_bounded_def tilt_init_def)

lemma onLeave_bounded: "tilt_bounded (onLeave t)"
  by (simp add: tilt_bounded_def onLeave_def)

lemma card_step_bounded:
  assumes "tilt_bounded (card_tilt c)" and "event_within ev"
  shows "tilt_bounded (card_tilt (card_step c ev))"
  using assms by (cases ev) (simp_all add: onMove_bounded onLeave_bounded)

lemma foldl_card_step_bounded:
  assumes "tilt_bounded (card_tilt c)" and "\<forall>ev \<in> set evs. event_within ev"
  shows "tilt_bounded (card_tilt (foldl card_step c evs))"
  using assms
proof (induction evs arbitrary: c)
  case Nil
  then show ?case by simp
next
  case (Cons ev evs)
  from Cons.prems have "tilt_bounded (card_tilt (card_step c ev))"
    by (simp add: card_step_bounded)
  with Cons.prems show ?case
    by (simp add: Cons.IH)
qed

text \<open>
  C4. With \<open>px\<close>, \<open>py\<close> the pointer position normalised to the card's bounding box, the
  move handler writes exactly \<open>ry = (px - 0.5) * 10\<close>, \<open>rx = - (py - 0.5) * 10\<close> and the glow
  position \<open>(px * 100, py * 100)\<close>; at the centre \<open>(0.5, 0.5)\<close> both angles are \<open>0\<close> and the
  glow is at \<open>(50, 50)\<close>.
\<close>

theorem onMove_formula:
  assumes "0 < width r" and "0 < height r"
    and "px = (clientX e - left r) / width r"
    and "py = (clientY e - top_edge r) / height r"
  shows "ry (onMove r e) = (px - 0.5) * 10
       \<and> rx (onMove r e) = - (py - 0.5) * 10
       \<and> glowX (onMove r e) = px * 100
       \<and> glowY (onMove r e) = py * 100
       \<and> (px = 0.5 \<and> py = 0.5 \<longrightarrow>
            onMove r e = \<lparr>rx = 0, ry = 0, glowX = 50, glowY = 50\<rparr>)"
proof -
  have eq: "onMove r e =
      \<lparr>rx = - (py - 0.5) * 10, ry = (px - 0.5) * 10, glowX = px * 100, glowY = py * 100\<rparr>"
    unfolding assms(3,4) by (simp add: onMove_def Let_def)
  have centre: "onMove r e = \<lparr>rx = 0, ry = 0, glowX = 50, glowY = 50\<rparr>"
    if "px = 0.5" and "py = 0.5"
    unfolding eq that by simp
  from centre show ?thesis
    unfolding eq by simp
qed

theorem onMove_formula_witness:
  "onMove \<lparr>left = 10, top_edge = 20, width = 200, height = 100\<rparr> \<lparr>clientX = 110, clientY = 70\<rparr>
     = \<lparr>rx = 0, ry = 0, glowX = 50, glowY = 50\<rparr>"
proof -
  let ?r = "\<lparr>left = 10, top_edge = 20, width = 200, height = 100\<rparr>"
  let ?e = "\<lparr>clientX = 110, clientY = 70\<rparr>"
  have size: "0 < width ?r" "0 < height ?r"
    by simp_all
  have px: "(0.5::real) = (clientX ?e - left ?r) / width ?r"
    and py: "(0.5::real) = (clientY ?e - top_edge ?r) / height ?r"
    by simp_all
  from onMove_formula [OF size px py] show ?thesis
    by blast
qed

text \<open>
  C5. Every reachable tilt state is within bounds: starting from the initial state and
  after any sequence of media-preference changes, pointer-leave events and pointer-move
  events inside the card's bounds, \<open>rx\<close> and \<open>ry\<close> are in \<open>[-5, 5]\<close> and \<open>glowX\<close>, \<open>glowY\<close> are
  in \<open>[0, 100]\<close>.
\<close>

theorem tilt_state_bounds:
  assumes "\<forall>ev \<in> set evs. event_within ev"
  shows "- 5 \<le> rx (card_tilt (card_run evs)) \<and> rx (card_tilt (card_run evs)) \<le> 5
       \<and> - 5 \<le> ry (card_tilt (card_run evs)) \<and> ry (card_tilt (card_run evs)) \<le> 5
       \<and> 0 \<le> glowX (card_tilt (card_run evs)) \<and> glowX (card_tilt (card_run evs)) \<le> 100
       \<and> 0 \<le> glowY (card_tilt (card_run evs)) \<and> glowY (card_tilt (card_run evs)) \<le> 100"
proof -
  have "tilt_bounded (card_tilt card_init)"
    by (simp add: card_init_def tilt_init_bounded)
  then have "tilt_bounded (card_tilt (card_run evs))"
    unfolding card_run_def using assms by (rule foldl_card_step_bounded)
  then show ?thesis
    by (simp add: tilt_bounded_def)
qed

theorem tilt_state_bounds_witness:
  "card_tilt (card_run [MediaPref False,
        PointerMove \<lparr>left = 10, top_edge = 20, width = 200, height = 100\<rparr>
                    \<lparr>clientX = 210, clientY = 20\<rparr>])
       = \<lparr>rx = 5, ry = 5, glowX = 100, glowY = 0\<rparr>
   \<and> rx (card_tilt (card_run [MediaPref False,
        PointerMove \<lparr>left = 10, top_edge = 20, width = 200, height = 100\<rparr>
                    \<lparr>clientX = 210, clientY = 20\<rparr>])) \<le> 5"
proof -
  let ?evs = "[MediaPref False,
        PointerMove \<lparr>left = 10, top_edge = 20, width = 200, height = 100\<rparr>
                    \<lparr>clientX = 210, clientY = 20\<rparr>]"
  have within: "\<forall>ev \<in> set ?evs. event_within ev"
    by (simp add: within_card_def)
  have run: "card_tilt (card_run ?evs) = \<lparr>rx = 5, ry = 5, glowX = 100, glowY = 0\<rparr>"
    by (simp add: card_run_def card_init_def tilt_init_def onMove_def)
  from tilt_state_bounds [OF within] have "rx (card_tilt (card_run ?evs)) \<le> 5"
    by blast
  with run show ?thesis
    by blast
qed

text \<open>
  C7. Whatever the prior tilt state, the pointer-leave handler writes the neutral state
  \<open>(rx, ry, glowX, glowY) = (0, 0, 50, 50)\<close>, which is also the card's initial state; a
  card whose listeners are attached takes exactly that state on a pointer-leave event.
\<close>

theorem onLeave_resets:
  "onLeave prev = \<lparr>rx = 0, ry = 0, glowX = 50, glowY = 50\<rparr>
   \<and> onLeave prev = tilt_init
   \<and> (\<not> reduced c \<longrightarrow>
        card_tilt (card_step c PointerLeave) = \<lparr>rx = 0, ry = 0, glowX = 50, glowY = 50\<rparr>)"
  by (simp add: onLeave_def tilt_init_def)

theorem onLeave_resets_witness:
  "card_tilt (card_step \<lparr>reduced = False, card_tilt = \<lparr>rx = 5, ry = - 3, glowX = 20, glowY = 0\<rparr>\<rparr>
       PointerLeave) = \<lparr>rx = 0, ry = 0, glowX = 50, glowY = 50\<rparr>"
proof -
  let ?c = "\<lparr>reduced = False, card_tilt = \<lparr>rx = 5, ry = - 3, glowX = 20, glowY = 0\<rparr>\<rparr>"
  have live: "\<not> reduced ?c"
    by simp
  from onLeave_resets [of "card_tilt ?c" ?c] live show ?thesis
    by blast
qed

section \<open>Properties of the page-wide glow\<close>

text \<open>
  C10. For every spring output \<open>(lx, ly)\<close>, also one that overshoots the raw pointer
  percentages, the rendered centre is \<open>(min (max lx 0) 100, min (max ly 0) 100)\<close>, so both
  percentages are in \<open>[0, 100]\<close>.
\<close>

theorem bg_center_clamped:
  "bg_center lx ly = (min (max lx 0) 100, min (max ly 0) 100)
   \<and> 0 \<le> fst (bg_center lx ly) \<and> fst (bg_center lx ly) \<le> 100
   \<and> 0 \<le> snd (bg_center lx ly) \<and> snd (bg_center lx ly) \<le> 100"
  by (simp add: bg_center_def Let_def min_def max_def)

section \<open>Properties of the contact form\<close>

lemma re_test_Once:
  "re_test ((p, Once) # r) s \<longleftrightarrow> (\<exists>c t. s = c # t \<and> p c \<and> re_test r t)"
  by (cases s) simp_all

lemma re_test_OneOrMore:
  "re_test ((p, OneOrMore) # r) s \<longleftrightarrow>
     (\<exists>u t. s = u @ t \<and> u \<noteq> [] \<and> list_all p u \<and> re_test r t)"
proof (induction s)
  case Nil
  then show ?case by simp
next
  case (Cons c s)
  show ?case
  proof
    assume "re_test ((p, OneOrMore) # r) (c # s)"
    then have pc: "p c" and alt: "re_test ((p, OneOrMore) # r) s \<or> re_test r s"
      by simp_all
    from alt show "\<exists>u t. c # s = u @ t \<and> u \<noteq> [] \<and> list_all p u \<and> re_test r t"
    proof
      assume "re_test ((p, OneOrMore) # r) s"
      with Cons.IH obtain u t where "s = u @ t" "list_all p u" "re_test r t"
        by blast
      with pc have "c # s = (c # u) @ t \<and> c # u \<noteq> [] \<and> list_all p (c # u) \<and> re_test r t"
        by simp
      then show ?thesis by blast
    next
      assume "re_test r s"
      with pc have "c # s = [c] @ s \<and> [c] \<noteq> [] \<and> list_all p [c] \<and> re_test r s"
        by simp
      then show ?thesis by blast
    qed
  next
    assume "\<exists>u t. c # s = u @ t \<and> u \<noteq> [] \<and> list_all p u \<and> re_test r t"
    then obtain u t where ut: "c # s = u @ t" "u \<noteq> []" "list_all p u" "re_test r t"
      by blast
    then obtain u' where u: "u = c # u'"
      by (cases u) simp_all
    with ut have pc: "p c" and s: "s = u' @ t" and all: "list_all p u'"
      by simp_all
    show "re_test ((p, OneOrMore) # r) (c # s)"
    proof (cases "u' = []")
      case True
      with s ut(4) pc show ?thesis by simp
    next
      case False
      with s all ut(4) have "re_test ((p, OneOrMore) # r) s"
        using Cons.IH by blast
      with pc show ?thesis by simp
    qed
  qed
qed

lemma re_test_email_shape: "re_test email_re s \<longleftrightarrow> email_shape s"
proof
  assume "re_test email_re s"
  then obtain l s1 where 1: "s = l @ s1" "l \<noteq> []" "list_all notSpaceAt l"
      "re_test [(\<lambda>c. c = 0x40, Once), (notSpaceAt, OneOrMore), (\<lambda>c. c = 0x2E, Once),
                (notSpaceAt, OneOrMore)] s1"
    unfolding email_re_def re_test_OneOrMore [of notSpaceAt] by blast
  from 1(4) obtain s2 where 2: "s1 = 0x40 # s2"
      "re_test [(notSpaceAt, OneOrMore), (\<lambda>c. c = 0x2E, Once), (notSpaceAt, OneOrMore)] s2"
    unfolding re_test_Once by blast
  from 2(2) obtain d s3 where 3: "s2 = d @ s3" "d \<noteq> []" "list_all notSpaceAt d"
      "re_test [(\<lambda>c. c = 0x2E, Once), (notSpaceAt, OneOrMore)] s3"
    unfolding re_test_OneOrMore [of notSpaceAt] by blast
  from 3(4) obtain s4 where 4: "s3 = 0x2E # s4" "re_test [(notSpaceAt, OneOrMore)] s4"
    unfolding re_test_Once by blast
  from 4(2) obtain t s5 where 5: "s4 = t @ s5" "t \<noteq> []" "list_all notSpaceAt t" "re_test [] s5"
    unfolding re_test_OneOrMore [of notSpaceAt] by blast
  from 5(4) have "s5 = []" by simp
  with 1 2 3 4 5 have "s = l @ [0x40] @ d @ [0x2E] @ t" by simp
  with 1 3 5 show "email_shape s"
    unfolding email_shape_def by blast
next
  assume "email_shape s"
  then obtain l d t where s: "s = l @ [0x40] @ d @ [0x2E] @ t"
    and ne: "l \<noteq> []" "d \<noteq> []" "t \<noteq> []"
    and cls: "list_all notSpaceAt l" "list_all notSpaceAt d" "list_all notSpaceAt t"
    unfolding email_shape_def by blast
  have "re_test [(notSpaceAt, OneOrMore)] t"
    unfolding re_test_OneOrMore [of notSpaceAt]
    using ne(3) cls(3) by (intro exI [of _ t] exI [of _ "[]"]) simp
  then have "re_test [(\<lambda>c. c = 0x2E, Once), (notSpaceAt, OneOrMore)] ([0x2E] @ t)"
    by simp
  then have "re_test [(notSpaceAt, OneOrMore), (\<lambda>c. c = 0x2E, Once), (notSpaceAt, OneOrMore)]
      (d @ [0x2E] @ t)"
    unfolding re_test_OneOrMore [of notSpaceAt]
    using ne(2) cls(2) by blast
  then have "re_test [(\<lambda>c. c = 0x40, Once), (notSpaceAt, OneOrMore), (\<lambda>c. c = 0x2E, Once),
      (notSpaceAt, OneOrMore)] ([0x40] @ d @ [0x2E] @ t)"
    by simp
  then show "re_test email_re s"
    unfolding email_re_def s re_test_OneOrMore [of notSpaceAt]
    using ne(1) cls(1) by blast
qed

lemma canSend_Ana:
  "canSend \<lparr>name = js ''Ana'', email = js ''a@b.co'', company = c, goal = g,
            message = js ''1234567890'', status = Idle\<rparr>"
  by (simp add: canSend_def trim_def js_def isWhiteSpace_def email_re_def notSpaceAt_def)

lemma canSend_Ana_Sent:
  "canSend \<lparr>name = js ''Ana'', email = js ''a@b.co'', company = c, goal = g,
            message = js ''1234567890'', status = Sent\<rparr>"
  by (simp add: canSend_def trim_def js_def isWhiteSpace_def email_re_def notSpaceAt_def)

lemma trim_simple_email: "trim (js ''a@b.co'') = js ''a@b.co''"
  by (simp add: trim_def js_def isWhiteSpace_def)

text \<open>
  C2, as stated, fails: the lengths are those of the trimmed fields. The name
  \<^verbatim>\<open>" A"\<close> has length 2, the e-mail has the required shape, the message has length 10 and
  the status is idle, yet \<^verbatim>\<open>canSend\<close> is false.
\<close>

theorem canSend_untrimmed_counterexample:
  "2 \<le> length (js '' A'')
   \<and> email_shape (js ''a@b.co'')
   \<and> 10 \<le> length (js ''1234567890'')
   \<and> Idle \<noteq> Sending
   \<and> \<not> canSend \<lparr>name = js '' A'', email = js ''a@b.co'', company = [], goal = [],
                 message = js ''1234567890'', status = Idle\<rparr>"
proof -
  have "re_test email_re (js ''a@b.co'')"
    by (simp add: js_def isWhiteSpace_def email_re_def notSpaceAt_def)
  then have shape: "email_shape (js ''a@b.co'')"
    by (simp only: re_test_email_shape)
  have refused: "\<not> canSend \<lparr>name = js '' A'', email = js ''a@b.co'', company = [], goal = [],
      message = js ''1234567890'', status = Idle\<rparr>"
    by (simp add: canSend_def trim_def js_def isWhiteSpace_def)
  from shape refused show ?thesis
    by (simp add: js_def)
qed

text \<open>
  C2, amended. \<^verbatim>\<open>canSend\<close> is true if and only if the name with leading and trailing
  white space removed has length at least 2, the trimmed e-mail has the shape
  \<^verbatim>\<open>local@domain.tld\<close> (three non-empty parts without white space or \<^verbatim>\<open>@\<close>), the trimmed
  message has length at least 10 and the status is not \<^verbatim>\<open>sending\<close>. It is false for the
  name \<^verbatim>\<open>"A"\<close> whatever the other fields, and true for the name \<^verbatim>\<open>"Ana"\<close>, the e-mail
  \<^verbatim>\<open>"a@b.co"\<close>, the message \<^verbatim>\<open>"1234567890"\<close> and the status idle.
\<close>

theorem canSend_iff:
  "(canSend f \<longleftrightarrow>
      2 \<le> length (trim (name f)) \<and> email_shape (trim (email f)) \<and>
      10 \<le> length (trim (message f)) \<and> status f \<noteq> Sending)
   \<and> (name f = js ''A'' \<longrightarrow> \<not> canSend f)
   \<and> canSend \<lparr>name = js ''Ana'', email = js ''a@b.co'', company = c, goal = g,
               message = js ''1234567890'', status = Idle\<rparr>"
proof -
  have iff: "canSend f \<longleftrightarrow>
      2 \<le> length (trim (name f)) \<and> email_shape (trim (email f)) \<and>
      10 \<le> length (trim (message f)) \<and> status f \<noteq> Sending"
    by (simp add: canSend_def Let_def re_test_email_shape)
  have "length (trim (js ''A'')) = 1"
    by (simp add: trim_def js_def isWhiteSpace_def)
  then have short: "name f = js ''A'' \<longrightarrow> \<not> canSend f"
    by (simp add: canSend_def Let_def)
  from iff short canSend_Ana show ?thesis
    by blast
qed

theorem canSend_iff_witness:
  "\<not> canSend \<lparr>name = js ''A'', email = js ''a@b.co'', company = [], goal = [],
               message = js ''1234567890'', status = Idle\<rparr>
   \<and> email_shape (js ''a@b.co'')"
proof -
  let ?short = "\<lparr>name = js ''A'', email = js ''a@b.co'', company = [], goal = [],
      message = js ''1234567890'', status = Idle\<rparr>"
  let ?ana = "\<lparr>name = js ''Ana'', email = js ''a@b.co'', company = [], goal = [],
      message = js ''1234567890'', status = Idle\<rparr>"
  have "name ?short = js ''A''"
    by simp
  with canSend_iff [of ?short] have refused: "\<not> canSend ?short"
    by blast
  from canSend_iff [of ?ana "[]" "[]"] have "email_shape (trim (email ?ana))"
    by blast
  then have "email_shape (js ''a@b.co'')"
    by (simp add: trim_simple_email)
  with refused show ?thesis
    by blast
qed

lemma run_until_idle: "pending p = [] \<Longrightarrow> run_until t p = p\<lparr>now := t\<rparr>"
  by (simp add: run_until.simps)

lemma run_until_early:
  "pending p = (due, k) # rest \<Longrightarrow> t < due \<Longrightarrow> run_until t p = p\<lparr>now := t\<rparr>"
  by (simp add: run_until.simps)

lemma run_until_fire:
  "pending p = (due, k) # rest \<Longrightarrow> due \<le> t \<Longrightarrow>
     run_until t p = run_until t (resume k (p\<lparr>pending := rest, now := due\<rparr>))"
  by (subst run_until.simps) simp

lemma onSubmit_accepted:
  assumes "canSend (draft p)"
  shows "onSubmit p = p\<lparr>draft := (draft p)\<lparr>status := Sending\<rparr>,
                        pending := schedule (now p + 650, Latency) (pending p)\<rparr>"
  using assms by (simp add: onSubmit_def onSubmit_start_def setTimeout_def)

lemma onSubmit_after_900_init: "onSubmit_after_900 f = form_init"
  by (simp add: onSubmit_after_900_def form_init_def)

lemma cycle_sending:
  assumes "canSend (draft p)" and "pending p = []" and "d < 650"
  shows "elapse d (onSubmit p)
       = p\<lparr>draft := (draft p)\<lparr>status := Sending\<rparr>,
           pending := [(now p + 650, Latency)], now := now p + d\<rparr>"
  using assms by (simp add: elapse_def onSubmit_accepted run_until_early)

lemma cycle_sent:
  assumes "canSend (draft p)" and "pending p = []" and "650 \<le> d" and "d < 1550"
  shows "elapse d (onSubmit p)
       = p\<lparr>draft := (draft p)\<lparr>status := Sent\<rparr>,
           pending := [(now p + 1550, Confirm)], now := now p + d\<rparr>"
proof -
  let ?p1 = "p\<lparr>draft := (draft p)\<lparr>status := Sending\<rparr>, pending := [(now p + 650, Latency)]\<rparr>"
  let ?p2 = "p\<lparr>draft := (draft p)\<lparr>status := Sent\<rparr>,
      pending := [(now p + 1550, Confirm)], now := now p + 650\<rparr>"
  have 1: "onSubmit p = ?p1"
    using assms(1,2) by (simp add: onSubmit_accepted)
  have "run_until (now p + d) ?p1
      = run_until (now p + d) (resume Latency (?p1\<lparr>pending := [], now := now p + 650\<rparr>))"
    using assms(3) by (intro run_until_fire) simp_all
  also have "resume Latency (?p1\<lparr>pending := [], now := now p + 650\<rparr>) = ?p2"
    by (simp add: setTimeout_def onSubmit_after_650_def)
  also have "run_until (now p + d) ?p2 = ?p2\<lparr>now := now p + d\<rparr>"
    using assms(4) by (intro run_until_early [where rest = "[]"]) (simp, linarith)
  finally show ?thesis
    by (simp add: elapse_def 1)
qed

lemma cycle_idle:
  assumes "canSend (draft p)" and "pending p = []" and "1550 \<le> d"
  shows "elapse d (onSubmit p) = p\<lparr>draft := form_init, pending := [], now := now p + d\<rparr>"
proof -
  let ?p1 = "p\<lparr>draft := (draft p)\<lparr>status := Sending\<rparr>, pending := [(now p + 650, Latency)]\<rparr>"
  let ?p2 = "p\<lparr>draft := (draft p)\<lparr>status := Sent\<rparr>,
      pending := [(now p + 1550, Confirm)], now := now p + 650\<rparr>"
  let ?p3 = "p\<lparr>draft := form_init, pending := [], now := now p + 1550\<rparr>"
  have 1: "onSubmit p = ?p1"
    using assms(1,2) by (simp add: onSubmit_accepted)
  have "run_until (now p + d) ?p1
      = run_until (now p + d) (resume Latency (?p1\<lparr>pending := [], now := now p + 650\<rparr>))"
    using assms(3) by (intro run_until_fire) simp_all
  also have "resume Latency (?p1\<lparr>pending := [], now := now p + 650\<rparr>) = ?p2"
    by (simp add: setTimeout_def onSubmit_after_650_def)
  also have "run_until (now p + d) ?p2
      = run_until (now p + d) (resume Confirm (?p2\<lparr>pending := [], now := now p + 1550\<rparr>))"
    using assms(3) by (intro run_until_fire) simp_all
  also have "resume Confirm (?p2\<lparr>pending := [], now := now p + 1550\<rparr>) = ?p3"
    by (simp add: onSubmit_after_900_init)
  also have "run_until (now p + d) ?p3 = ?p3\<lparr>now := now p + d\<rparr>"
    by (intro run_until_idle) simp
  finally show ?thesis
    by (simp add: elapse_def 1)
qed

lemma canSend_page_Ana: "canSend (draft page_Ana)"
  by (simp add: page_Ana_def canSend_Ana)

lemma page_Ana_sent:
  "elapse 1000 (onSubmit page_Ana)
     = page_Ana\<lparr>draft := (draft page_Ana)\<lparr>status := Sent\<rparr>,
                pending := [(1550, Confirm)], now := 1000\<rparr>"
  using cycle_sent [OF canSend_page_Ana, of 1000] by (simp add: page_Ana_def)

text \<open>
  C9. When \<^verbatim>\<open>canSend\<close> is false the submit action writes no state: the status and the
  fields name, email, company, goal and message are what they were, and no timer is
  started.
\<close>

theorem onSubmit_refused:
  assumes "\<not> canSend (draft p)"
  shows "onSubmit_start (draft p) = None \<and> onSubmit p = p
       \<and> draft (onSubmit p) = draft p
       \<and> pending (onSubmit p) = pending p
       \<and> status (draft (onSubmit p)) = status (draft p)
       \<and> name (draft (onSubmit p)) = name (draft p)
       \<and> email (draft (onSubmit p)) = email (draft p)
       \<and> company (draft (onSubmit p)) = company (draft p)
       \<and> goal (draft (onSubmit p)) = goal (draft p)
       \<and> message (draft (onSubmit p)) = message (draft p)"
  using assms by (simp add: onSubmit_def onSubmit_start_def)

theorem onSubmit_refused_witness:
  "onSubmit \<lparr>draft = form_init, pending = [], now = 0\<rparr> = \<lparr>draft = form_init, pending = [], now = 0\<rparr>
   \<and> onSubmit (onSubmit page_Ana) = onSubmit page_Ana"
proof -
  have "\<not> canSend (draft \<lparr>draft = form_init, pending = [], now = 0\<rparr>)"
    by (simp add: canSend_def form_init_def trim_def)
  from onSubmit_refused [OF this]
  have empty: "onSubmit \<lparr>draft = form_init, pending = [], now = 0\<rparr>
      = \<lparr>draft = form_init, pending = [], now = 0\<rparr>"
    by blast
  have "status (draft (onSubmit page_Ana)) = Sending"
    by (simp add: onSubmit_accepted canSend_page_Ana)
  then have "\<not> canSend (draft (onSubmit page_Ana))"
    by (simp add: canSend_def Let_def)
  from onSubmit_refused [OF this] empty show ?thesis
    by blast
qed

text \<open>
  C3, as stated, fails. One second after the filled draft of \<open>page_Ana\<close> is submitted its
  status is \<^verbatim>\<open>sent\<close> and \<^verbatim>\<open>canSend\<close> is true, so a second submission is accepted. The
  status then moves from sent to sending; 550 ms later the reset of the first
  submission clears every field and writes idle; the second submission writes sent at
  650 ms, on the cleared draft, and idle at 1550 ms.
\<close>

theorem onSubmit_resubmit_counterexample:
  "canSend (draft (elapse 1000 (onSubmit page_Ana)))
   \<and> status (draft (elapse 1000 (onSubmit page_Ana))) = Sent
   \<and> status (draft (onSubmit (elapse 1000 (onSubmit page_Ana)))) = Sending
   \<and> name (draft (onSubmit (elapse 1000 (onSubmit page_Ana)))) = js ''Ana''
   \<and> draft (elapse 550 (onSubmit (elapse 1000 (onSubmit page_Ana)))) = form_init
   \<and> draft (elapse 650 (onSubmit (elapse 1000 (onSubmit page_Ana)))) = form_init\<lparr>status := Sent\<rparr>
   \<and> draft (elapse 1550 (onSubmit (elapse 1000 (onSubmit page_Ana)))) = form_init"
proof -
  let ?q = "elapse 1000 (onSubmit page_Ana)"
  have ok: "canSend (draft ?q)"
    unfolding page_Ana_sent by (simp add: page_Ana_def canSend_Ana_Sent)
  have q2: "onSubmit ?q
      = page_Ana\<lparr>draft := (draft page_Ana)\<lparr>status := Sending\<rparr>,
                 pending := [(1550, Confirm), (1650, Latency)], now := 1000\<rparr>"
    by (simp add: onSubmit_accepted [OF ok]) (simp add: page_Ana_sent)
  have a: "draft (elapse 550 (onSubmit ?q)) = form_init"
    unfolding q2
    by (simp add: elapse_def run_until.simps onSubmit_after_900_init page_Ana_def)
  have b: "draft (elapse 650 (onSubmit ?q)) = form_init\<lparr>status := Sent\<rparr>"
    unfolding q2
    by (simp add: elapse_def run_until.simps onSubmit_after_900_init onSubmit_after_650_def
        setTimeout_def page_Ana_def)
  have c: "draft (elapse 1550 (onSubmit ?q)) = form_init"
    unfolding q2
    by (simp add: elapse_def run_until.simps onSubmit_after_900_init onSubmit_after_650_def
        setTimeout_def page_Ana_def)
  have d: "status (draft ?q) = Sent"
    by (simp add: page_Ana_sent)
  have e: "status (draft (onSubmit ?q)) = Sending" "name (draft (onSubmit ?q)) = js ''Ana''"
    unfolding q2 by (simp_all add: page_Ana_def)
  from ok a b c d e show ?thesis
    by blast
qed

text \<open>
  C3, amended. For every draft with \<^verbatim>\<open>canSend\<close> true and status idle, submitted while no
  earlier submission is pending and left alone until it completes, the status moves
  idle, sending, sent, idle in that order (sending until 650 ms, sent until 1550 ms).
  The fields are kept until the final transition, which clears name, email, company
  and message to the empty string and sets goal to its default option
  \<^verbatim>\<open>"Crescer com performance"\<close> (not empty). After the cycle the draft equals the initial
  draft exactly, and resetting the initial draft gives the initial draft.
\<close>

theorem onSubmit_cycle:
  assumes "canSend (draft p)" and "status (draft p) = Idle" and "pending p = []"
  shows "map (\<lambda>q. status (draft q))
           [p, onSubmit p, elapse 650 (onSubmit p), elapse 1550 (onSubmit p)]
         = [Idle, Sending, Sent, Idle]
       \<and> draft (onSubmit p) = (draft p)\<lparr>status := Sending\<rparr>
       \<and> (\<forall>d<650. draft (elapse d (onSubmit p)) = (draft p)\<lparr>status := Sending\<rparr>)
       \<and> (\<forall>d. 650 \<le> d \<and> d < 1550 \<longrightarrow>
             draft (elapse d (onSubmit p)) = (draft p)\<lparr>status := Sent\<rparr>)
       \<and> (\<forall>d\<ge>1550. draft (elapse d (onSubmit p)) = form_init
                    \<and> pending (elapse d (onSubmit p)) = [])
       \<and> name form_init = [] \<and> email form_init = [] \<and> company form_init = []
       \<and> message form_init = []
       \<and> goal form_init = js ''Crescer com performance'' \<and> goal form_init \<noteq> []
       \<and> status form_init = Idle
       \<and> onSubmit_after_900 form_init = form_init"
proof -
  have sending0: "draft (onSubmit p) = (draft p)\<lparr>status := Sending\<rparr>"
    using assms(1) by (simp add: onSubmit_accepted)
  have sending: "\<forall>d<650. draft (elapse d (onSubmit p)) = (draft p)\<lparr>status := Sending\<rparr>"
    using assms(1,3) by (simp add: cycle_sending)
  have sent: "\<forall>d. 650 \<le> d \<and> d < 1550 \<longrightarrow>
      draft (elapse d (onSubmit p)) = (draft p)\<lparr>status := Sent\<rparr>"
    using assms(1,3) by (simp add: cycle_sent)
  have idle: "\<forall>d\<ge>1550. draft (elapse d (onSubmit p)) = form_init
      \<and> pending (elapse d (onSubmit p)) = []"
    using assms(1,3) by (simp add: cycle_idle)
  have init: "name form_init = []" "email form_init = []" "company form_init = []"
      "message form_init = []" "goal form_init = js ''Crescer com performance''"
      "goal form_init \<noteq> []" "status form_init = Idle"
    by (simp_all add: form_init_def js_def)
  have trace: "map (\<lambda>q. status (draft q))
      [p, onSubmit p, elapse 650 (onSubmit p), elapse 1550 (onSubmit p)]
      = [Idle, Sending, Sent, Idle]"
    using assms by (simp add: sending0 cycle_sent cycle_idle init)
  from trace sending0 sending sent idle init show ?thesis
    by (simp add: onSubmit_after_900_init)
qed

theorem onSubmit_cycle_witness:
  "map (\<lambda>q. status (draft q))
     [page_Ana, onSubmit page_Ana, elapse 650 (onSubmit page_Ana),
      elapse 1550 (onSubmit page_Ana)]
     = [Idle, Sending, Sent, Idle]
   \<and> name (draft (elapse 1549 (onSubmit page_Ana))) = js ''Ana''
   \<and> draft (elapse 1550 (onSubmit page_Ana)) = form_init"
proof -
  have idle: "status (draft page_Ana) = Idle" and none: "pending page_Ana = []"
    by (simp_all add: page_Ana_def)
  note cycle = onSubmit_cycle [OF canSend_page_Ana idle none]
  from cycle have "draft (elapse 1549 (onSubmit page_Ana)) = (draft page_Ana)\<lparr>status := Sent\<rparr>"
    by simp
  then have "name (draft (elapse 1549 (onSubmit page_Ana))) = js ''Ana''"
    by (simp add: page_Ana_def)
  with cycle show ?thesis
    by simp
qed

section \<open>Properties of the section tracker\<close>

lemma els_member:
  assumes "el \<in> set (els doc ids)"
  shows "el_id el \<in> set ids" and "el_id el \<noteq> []"
proof -
  from assms obtain i where i: "i \<in> set ids" "getElementById doc i \<noteq> None"
      "el = the (getElementById doc i)"
    unfolding els_def by auto
  then have ne: "i \<noteq> []" and "find (\<lambda>el. el_id el = i) doc = Some el"
    by (auto simp: getElementById_def split: if_splits)
  then have "el_id el = i"
    by (auto simp: find_Some_iff)
  with i ne show "el_id el \<in> set ids" and "el_id el \<noteq> []"
    by simp_all
qed

lemma insert_cmp_not_Nil: "insert_cmp cmp x ys \<noteq> []"
  by (cases ys) simp_all

lemma sort_cmp_Nil_iff: "sort_cmp cmp xs = [] \<longleftrightarrow> xs = []"
  by (cases xs) (simp_all add: insert_cmp_not_Nil)

lemma hd_insert_cmp:
  "hd (insert_cmp cmp x ys) = (if ys = [] \<or> cmp x (hd ys) \<le> 0 then x else hd ys)"
  by (cases ys) simp_all

lemma by_ratio_desc_le:
  "by_ratio_desc a b \<le> 0 \<longleftrightarrow> intersectionRatio b \<le> intersectionRatio a"
  by (simp add: by_ratio_desc_def)

lemma hd_sort_cmp_max:
  assumes "xs \<noteq> []"
  shows "hd (sort_cmp by_ratio_desc xs) \<in> set xs"
    and "\<forall>e \<in> set xs. intersectionRatio e \<le> intersectionRatio (hd (sort_cmp by_ratio_desc xs))"
  using assms
proof (induction xs)
  case Nil
  case 1 then show ?case by simp
  case 2 then show ?case by simp
next
  case (Cons x xs)
  case 1 
  with Cons.IH(1) show ?case
    by (cases "xs = []") (simp_all add: hd_insert_cmp sort_cmp_Nil_iff)
  case 2
  with Cons.IH(2) show ?case
    by (cases "xs = []") (auto simp add: hd_insert_cmp sort_cmp_Nil_iff by_ratio_desc_le)
qed

lemma hd_sort_cmp_first:
  assumes "\<forall>e \<in> set ys. intersectionRatio e < intersectionRatio w"
    and "\<forall>e \<in> set zs. intersectionRatio e \<le> intersectionRatio w"
  shows "hd (sort_cmp by_ratio_desc (ys @ w # zs)) = w"
  using assms
proof (induction ys)
  case Nil
  show ?case
  proof (cases "zs = []")
    case True
    then show ?thesis by simp
  next
    case False
    with hd_sort_cmp_max [of zs] Nil.prems(2)
    have "intersectionRatio (hd (sort_cmp by_ratio_desc zs)) \<le> intersectionRatio w"
      by blast
    then show ?thesis
      by (simp add: hd_insert_cmp by_ratio_desc_le)
  qed
next
  case (Cons y ys)
  then have "hd (sort_cmp by_ratio_desc (ys @ w # zs)) = w"
    by simp
  with Cons.prems(1) show ?case
    by (simp add: hd_insert_cmp by_ratio_desc_le sort_cmp_Nil_iff)
qed

lemma on_entries_hd:
  "on_entries entries a =
     (if filter isIntersecting entries = [] then a
      else if el_id (target (hd (sort_cmp by_ratio_desc (filter isIntersecting entries)))) \<noteq> []
        then el_id (target (hd (sort_cmp by_ratio_desc (filter isIntersecting entries))))
        else a)"
proof (cases "sort_cmp by_ratio_desc (filter isIntersecting entries)")
  case Nil
  then have "filter isIntersecting entries = []"
    by (simp only: sort_cmp_Nil_iff)
  with Nil show ?thesis
    by (simp add: on_entries_def)
next
  case (Cons v vs)
  then have "filter isIntersecting entries \<noteq> []"
    by (metis sort_cmp_Nil_iff list.distinct(1))
  with Cons show ?thesis
    by (simp add: on_entries_def)
qed

lemma hd_sorted_visible:
  assumes "\<exists>e \<in> set entries. isIntersecting e"
  defines "w \<equiv> hd (sort_cmp by_ratio_desc (filter isIntersecting entries))"
  shows "w \<in> set entries" and "isIntersecting w"
    and "\<forall>e \<in> set entries. isIntersecting e \<longrightarrow> intersectionRatio e \<le> intersectionRatio w"
proof -
  from assms(1) have ne: "filter isIntersecting entries \<noteq> []"
    by (simp add: filter_empty_conv)
  from hd_sort_cmp_max(1) [OF ne] show "w \<in> set entries" and "isIntersecting w"
    unfolding w_def by simp_all
  from hd_sort_cmp_max(2) [OF ne]
  show "\<forall>e \<in> set entries. isIntersecting e \<longrightarrow> intersectionRatio e \<le> intersectionRatio w"
    unfolding w_def by simp
qed

lemma on_entries_result:
  assumes "batch_of (els doc ids) b"
  shows "on_entries b a = a \<or> (on_entries b a \<in> set ids \<and> on_entries b a \<noteq> [])"
proof (cases "\<exists>e \<in> set b. isIntersecting e")
  case False
  then have "filter isIntersecting b = []"
    by (simp add: filter_empty_conv)
  then show ?thesis
    by (simp add: on_entries_hd)
next
  case True
  let ?w = "hd (sort_cmp by_ratio_desc (filter isIntersecting b))"
  from hd_sorted_visible(1) [OF True] assms have "target ?w \<in> set (els doc ids)"
    by (simp add: batch_of_def)
  then have "el_id (target ?w) \<in> set ids" "el_id (target ?w) \<noteq> []"
    by (rule els_member)+
  then show ?thesis
    by (simp add: on_entries_hd)
qed

text \<open>
  C1. For every batch the observer delivers (entries whose targets are elements resolved
  from the configured ids): if no entry is intersecting, the active section is
  unchanged; if at least one is, the active section becomes the id of the first entry
  of the intersecting ones sorted by descending ratio, which is an intersecting entry
  of the batch whose ratio is the highest. For the batch of \<^verbatim>\<open>a\<close> with ratio 0.5 and \<^verbatim>\<open>b\<close>
  with ratio 0.7, both intersecting, the result is \<^verbatim>\<open>b\<close>.
\<close>

theorem on_entries_highest_ratio:
  assumes "batch_of (els doc ids) entries"
  shows "(\<not> (\<exists>e \<in> set entries. isIntersecting e) \<longrightarrow> on_entries entries a = a)
       \<and> ((\<exists>e \<in> set entries. isIntersecting e) \<longrightarrow>
            (let w = hd (sort_cmp by_ratio_desc (filter isIntersecting entries))
             in w \<in> set entries \<and> isIntersecting w
                \<and> (\<forall>e \<in> set entries. isIntersecting e \<longrightarrow>
                      intersectionRatio e \<le> intersectionRatio w)
                \<and> on_entries entries a = el_id (target w)))
       \<and> on_entries
            [\<lparr>target = \<lparr>el_id = js ''a''\<rparr>, intersectionRatio = 0.5, isIntersecting = True\<rparr>,
             \<lparr>target = \<lparr>el_id = js ''b''\<rparr>, intersectionRatio = 0.7, isIntersecting = True\<rparr>] a
           = js ''b''"
proof (intro conjI impI)
  assume "\<not> (\<exists>e \<in> set entries. isIntersecting e)"
  then have "filter isIntersecting entries = []"
    by (simp add: filter_empty_conv)
  then show "on_entries entries a = a"
    by (simp add: on_entries_hd)
next
  assume some: "\<exists>e \<in> set entries. isIntersecting e"
  let ?w = "hd (sort_cmp by_ratio_desc (filter isIntersecting entries))"
  note w = hd_sorted_visible [OF some]
  from some have ne: "filter isIntersecting entries \<noteq> []"
    by (simp add: filter_empty_conv)
  from w(1) assms have "target ?w \<in> set (els doc ids)"
    by (simp add: batch_of_def)
  then have "el_id (target ?w) \<noteq> []"
    by (rule els_member(2))
  with ne have "on_entries entries a = el_id (target ?w)"
    by (simp add: on_entries_hd)
  with w show "let w = ?w
     in w \<in> set entries \<and> isIntersecting w
        \<and> (\<forall>e \<in> set entries. isIntersecting e \<longrightarrow> intersectionRatio e \<le> intersectionRatio w)
        \<and> on_entries entries a = el_id (target w)"
    by (simp add: Let_def)
next
  show "on_entries
      [\<lparr>target = \<lparr>el_id = js ''a''\<rparr>, intersectionRatio = 0.5, isIntersecting = True\<rparr>,
       \<lparr>target = \<lparr>el_id = js ''b''\<rparr>, intersectionRatio = 0.7, isIntersecting = True\<rparr>] a
      = js ''b''"
    by (simp add: on_entries_def by_ratio_desc_def js_def)
qed

theorem on_entries_highest_ratio_witness:
  "on_entries
     [\<lparr>target = \<lparr>el_id = js ''a''\<rparr>, intersectionRatio = 0.7, isIntersecting = True\<rparr>,
      \<lparr>target = \<lparr>el_id = js ''b''\<rparr>, intersectionRatio = 0.5, isIntersecting = True\<rparr>,
      \<lparr>target = \<lparr>el_id = js ''c''\<rparr>, intersectionRatio = 0.9, isIntersecting = False\<rparr>]
     (js ''c'') = js ''a''
   \<and> on_entries
     [\<lparr>target = \<lparr>el_id = js ''b''\<rparr>, intersectionRatio = 0, isIntersecting = False\<rparr>]
     (js ''c'') = js ''c''"
proof -
  let ?doc = "[\<lparr>el_id = js ''a''\<rparr>, \<lparr>el_id = js ''b''\<rparr>, \<lparr>el_id = js ''c''\<rparr>]"
  let ?ids = "[js ''a'', js ''b'', js ''c'']"
  let ?b1 = "[\<lparr>target = \<lparr>el_id = js ''a''\<rparr>, intersectionRatio = 0.7, isIntersecting = True\<rparr>,
      \<lparr>target = \<lparr>el_id = js ''b''\<rparr>, intersectionRatio = 0.5, isIntersecting = True\<rparr>,
      \<lparr>target = \<lparr>el_id = js ''c''\<rparr>, intersectionRatio = 0.9, isIntersecting = False\<rparr>]"
  let ?b2 = "[\<lparr>target = \<lparr>el_id = js ''b''\<rparr>, intersectionRatio = 0, isIntersecting = False\<rparr>]"
  have els: "els ?doc ?ids = ?doc"
    by (simp add: els_def getElementById_def js_def)
  have b1: "batch_of (els ?doc ?ids) ?b1" and b2: "batch_of (els ?doc ?ids) ?b2"
    unfolding els by (simp_all add: batch_of_def)
  have some: "\<exists>e \<in> set ?b1. isIntersecting e" and none: "\<not> (\<exists>e \<in> set ?b2. isIntersecting e)"
    by simp_all
  have hd: "hd (sort_cmp by_ratio_desc (filter isIntersecting ?b1))
      = \<lparr>target = \<lparr>el_id = js ''a''\<rparr>, intersectionRatio = 0.7, isIntersecting = True\<rparr>"
    by (simp add: by_ratio_desc_def)
  from on_entries_highest_ratio [OF b1, of "js ''c''"] some
  have "on_entries ?b1 (js ''c'') = js ''a''"
    unfolding Let_def hd by simp
  moreover from on_entries_highest_ratio [OF b2, of "js ''c''"] none
  have "on_entries ?b2 (js ''c'') = js ''c''"
    by blast
  ultimately show ?thesis
    by blast
qed

lemma useActiveSection_active: "ids \<noteq> [] \<Longrightarrow> active (useActiveSection doc ids) = hd ids"
  by (cases ids) (simp_all add: useActiveSection_def)

lemma rerender_same_ids:
  "dep t = js_join (js ''|'') ids \<Longrightarrow> configured t = ids \<Longrightarrow> rerender doc' ids t = t"
  by (simp add: rerender_def)

lemma deliver_result:
  assumes "batch_of (observed t) b" and "observed t = els doc ids"
  shows "active (deliver t b) = active t
       \<or> (active (deliver t b) \<in> set ids \<and> active (deliver t b) \<noteq> [])"
  using on_entries_result [of doc ids b "active t"] assms by (simp add: deliver_def)

lemma tracker_invariant:
  assumes "observer_batches t evs" and "\<forall>ev \<in> set evs. keeps_ids ids ev"
    and "observed t = els doc ids" and "dep t = js_join (js ''|'') ids"
    and "configured t = ids"
    and "P (active t)" and "\<And>a. a \<in> set ids \<Longrightarrow> a \<noteq> [] \<Longrightarrow> P a"
  shows "P (active (foldl tracker_step t evs))
       \<and> observed (foldl tracker_step t evs) = els doc ids
       \<and> configured (foldl tracker_step t evs) = ids"
  using assms(1-6)
proof (induction evs arbitrary: t)
  case Nil
  then show ?case by simp
next
  case (Cons ev evs)
  show ?case
  proof (cases ev)
    case (Render doc' ids')
    with Cons.prems(2) have "ids' = ids"
      by simp
    with Cons.prems(4,5) have step: "tracker_step t ev = t"
      by (simp add: Render rerender_same_ids)
    with Cons.prems have "observer_batches t evs" "\<forall>ev \<in> set evs. keeps_ids ids ev"
      by (simp_all add: Render)
    from this Cons.prems(3-6) show ?thesis
      unfolding foldl_Cons step by (rule Cons.IH)
  next
    case (Deliver b)
    let ?t = "deliver t b"
    from Cons.prems(1) have b: "batch_of (observed t) b" and rest: "observer_batches ?t evs"
      by (simp_all add: Deliver)
    from deliver_result [OF b Cons.prems(3)] Cons.prems(6) assms(7) have "P (active ?t)"
      by auto
    moreover from Cons.prems have "\<forall>ev \<in> set evs. keeps_ids ids ev" "observed ?t = els doc ids"
        "dep ?t = js_join (js ''|'') ids" "configured ?t = ids"
      by (simp_all add: deliver_def)
    ultimately have "P (active (foldl tracker_step ?t evs))
        \<and> observed (foldl tracker_step ?t evs) = els doc ids
        \<and> configured (foldl tracker_step ?t evs) = ids"
      using rest by (intro Cons.IH)
    then show ?thesis
      by (simp add: Deliver)
  qed
qed

text \<open>
  C8, as stated, fails. Where the first configured id is the empty string the list is
  not empty and the active section is the empty string. Where a later render passes
  another list, the active section is not initialised again: after the list \<^verbatim>\<open>["a"]\<close>
  is replaced by \<^verbatim>\<open>["c"]\<close> it is still \<^verbatim>\<open>a\<close>, which is not a configured id, and after the
  empty list is replaced by \<^verbatim>\<open>["a"]\<close> it is still the empty string.
\<close>

theorem active_section_counterexample:
  "[[]] \<noteq> ([] :: jsstring list)
   \<and> active (tracker_run [] [[]] []) = []
   \<and> configured (tracker_run [\<lparr>el_id = js ''a''\<rparr>, \<lparr>el_id = js ''c''\<rparr>] [js ''a'']
        [Render [\<lparr>el_id = js ''a''\<rparr>, \<lparr>el_id = js ''c''\<rparr>] [js ''c'']]) = [js ''c'']
   \<and> active (tracker_run [\<lparr>el_id = js ''a''\<rparr>, \<lparr>el_id = js ''c''\<rparr>] [js ''a'']
        [Render [\<lparr>el_id = js ''a''\<rparr>, \<lparr>el_id = js ''c''\<rparr>] [js ''c'']]) = js ''a''
   \<and> js ''a'' \<notin> set [js ''c'']
   \<and> configured (tracker_run [\<lparr>el_id = js ''a''\<rparr>] []
        [Render [\<lparr>el_id = js ''a''\<rparr>] [js ''a'']]) = [js ''a'']
   \<and> active (tracker_run [\<lparr>el_id = js ''a''\<rparr>] []
        [Render [\<lparr>el_id = js ''a''\<rparr>] [js ''a'']]) = []"
  by (simp add: tracker_run_def useActiveSection_def rerender_def js_def)

text \<open>
  C8, amended. Whenever the configured id list is not empty and every render passes
  the list the hook was mounted with, the active section is always one of the
  configured ids, and it is never the empty string provided the first configured id is
  not the empty string; it is initialised to the first configured id, and every update
  (a batch of the observer) either leaves it unchanged or assigns a non-empty id of the
  configured list.
\<close>

theorem active_section_invariant:
  assumes "ids \<noteq> []"
    and "\<forall>ev \<in> set evs. keeps_ids ids ev"
    and "observer_batches (useActiveSection doc ids) evs"
  shows "active (tracker_run doc ids evs) \<in> set ids
       \<and> configured (tracker_run doc ids evs) = ids
       \<and> (hd ids \<noteq> [] \<longrightarrow> active (tracker_run doc ids evs) \<noteq> [])
       \<and> active (useActiveSection doc ids) = hd ids
       \<and> (\<forall>b a. batch_of (observed (tracker_run doc ids evs)) b \<longrightarrow>
            on_entries b a = a \<or> (on_entries b a \<in> set ids \<and> on_entries b a \<noteq> []))"
proof -
  let ?t = "useActiveSection doc ids"
  have init: "active ?t = hd ids"
    using assms(1) by (rule useActiveSection_active)
  have obs: "observed ?t = els doc ids" and dep: "dep ?t = js_join (js ''|'') ids"
    and conf: "configured ?t = ids"
    by (simp_all add: useActiveSection_def)
  from assms(1) have "active ?t \<in> set ids"
    by (simp add: init)
  with assms(3,2) obs dep conf
  have "active (foldl tracker_step ?t evs) \<in> set ids
      \<and> observed (foldl tracker_step ?t evs) = els doc ids
      \<and> configured (foldl tracker_step ?t evs) = ids"
    by (rule tracker_invariant) simp
  then have mem: "active (tracker_run doc ids evs) \<in> set ids"
    and observed: "observed (tracker_run doc ids evs) = els doc ids"
    and configured: "configured (tracker_run doc ids evs) = ids"
    by (simp_all add: tracker_run_def)
  have ne: "active (tracker_run doc ids evs) \<noteq> []" if "hd ids \<noteq> []"
  proof -
    from that have "active ?t \<noteq> []"
      by (simp add: init)
    with assms(3,2) obs dep conf
    have "active (foldl tracker_step ?t evs) \<noteq> []
        \<and> observed (foldl tracker_step ?t evs) = els doc ids
        \<and> configured (foldl tracker_step ?t evs) = ids"
      by (rule tracker_invariant) simp
    then show ?thesis
      by (simp add: tracker_run_def)
  qed
  have upd: "\<forall>b a. batch_of (observed (tracker_run doc ids evs)) b \<longrightarrow>
      on_entries b a = a \<or> (on_entries b a \<in> set ids \<and> on_entries b a \<noteq> [])"
    unfolding observed using on_entries_result by blast
  from mem configured ne init upd show ?thesis
    by blast
qed

theorem active_section_invariant_witness:
  "active (tracker_run [\<lparr>el_id = js ''a''\<rparr>, \<lparr>el_id = js ''b''\<rparr>] [js ''a'', js ''b'']
     [Deliver [\<lparr>target = \<lparr>el_id = js ''b''\<rparr>, intersectionRatio = 0.5, isIntersecting = True\<rparr>],
      Render [\<lparr>el_id = js ''a''\<rparr>] [js ''a'', js ''b''],
      Deliver [\<lparr>target = \<lparr>el_id = js ''b''\<rparr>, intersectionRatio = 0, isIntersecting = False\<rparr>]])
     \<in> set [js ''a'', js ''b'']
   \<and> active (tracker_run [\<lparr>el_id = js ''a''\<rparr>, \<lparr>el_id = js ''b''\<rparr>] [js ''a'', js ''b'']
     [Deliver [\<lparr>target = \<lparr>el_id = js ''b''\<rparr>, intersectionRatio = 0.5, isIntersecting = True\<rparr>],
      Render [\<lparr>el_id = js ''a''\<rparr>] [js ''a'', js ''b''],
      Deliver [\<lparr>target = \<lparr>el_id = js ''b''\<rparr>, intersectionRatio = 0, isIntersecting = False\<rparr>]])
     \<noteq> []"
proof -
  let ?doc = "[\<lparr>el_id = js ''a''\<rparr>, \<lparr>el_id = js ''b''\<rparr>]"
  let ?ids = "[js ''a'', js ''b'']"
  let ?evs = "[Deliver [\<lparr>target = \<lparr>el_id = js ''b''\<rparr>, intersectionRatio = 0.5, isIntersecting = True\<rparr>],
      Render [\<lparr>el_id = js ''a''\<rparr>] [js ''a'', js ''b''],
      Deliver [\<lparr>target = \<lparr>el_id = js ''b''\<rparr>, intersectionRatio = 0, isIntersecting = False\<rparr>]]"
  have ids: "?ids \<noteq> []" and first: "hd ?ids \<noteq> []"
    by (simp_all add: js_def)
  have keeps: "\<forall>ev \<in> set ?evs. keeps_ids ?ids ev"
    by simp
  have els: "els ?doc ?ids = ?doc"
    by (simp add: els_def getElementById_def js_def)
  have batches: "observer_batches (useActiveSection ?doc ?ids) ?evs"
    by (simp add: useActiveSection_def els rerender_def deliver_def batch_of_def)
  from active_section_invariant [OF ids keeps batches] first show ?thesis
    by blast
qed

section \<open>Properties of the typewriter headline\<close>

lemma tw_mount_off:
  "tw_mount s False = \<lparr>tw_reduced = False, tw_text = [], tw_done = False, tw_timer = Some 0\<rparr>"
  by (simp add: tw_mount_def tw_setReduced_def tw_effect_def tw_first_render_def)

lemma tw_mount_on:
  "tw_mount s True = \<lparr>tw_reduced = True, tw_text = [], tw_done = False, tw_timer = None\<rparr>"
  by (simp add: tw_mount_def tw_setReduced_def tw_effect_def tw_first_render_def)

lemma tw_ticks_stopped: "tw_timer t = None \<Longrightarrow> tw_ticks s k t = t"
  by (induction k) (simp_all add: tw_tick_def)

lemma tw_ticks_running:
  assumes "i + k < length s"
  shows "tw_ticks s k \<lparr>tw_reduced = r, tw_text = x, tw_done = d, tw_timer = Some i\<rparr>
       = \<lparr>tw_reduced = r, tw_text = (if k = 0 then x else take (i + k) s), tw_done = d,
          tw_timer = Some (i + k)\<rparr>"
  using assms
proof (induction k arbitrary: i x)
  case 0
  then show ?case by simp
next
  case (Suc k)
  from Suc.prems have "Suc i + k < length s"
    by simp
  from Suc.IH [OF this] Suc.prems show ?case
    by (simp add: tw_tick_def)
qed

lemma tw_ticks_finishing:
  assumes "i + Suc k = length s"
  shows "tw_ticks s (Suc k) \<lparr>tw_reduced = r, tw_text = x, tw_done = d, tw_timer = Some i\<rparr>
       = \<lparr>tw_reduced = r, tw_text = s, tw_done = True, tw_timer = None\<rparr>"
  using assms
proof (induction k arbitrary: i x)
  case 0
  then show ?case by (simp add: tw_tick_def)
next
  case (Suc k)
  from Suc.prems have "Suc i + Suc k = length s"
    by simp
  from Suc.IH [OF this] Suc.prems show ?case
    by (simp add: tw_tick_def)
qed

lemma typewriter_reduced_off:
  "1 \<le> k \<Longrightarrow> k < length s \<Longrightarrow>
     tw_ticks s k (tw_mount s False) =
       \<lparr>tw_reduced = False, tw_text = take k s, tw_done = False, tw_timer = Some k\<rparr>"
  "1 \<le> length s \<Longrightarrow>
     tw_ticks s (length s) (tw_mount s False) =
       \<lparr>tw_reduced = False, tw_text = s, tw_done = True, tw_timer = None\<rparr>"
  "1 \<le> k \<Longrightarrow> k \<le> length s \<Longrightarrow> tw_text (tw_ticks s k (tw_mount s False)) = take k s"
proof -
  show a: "tw_ticks s k (tw_mount s False) =
      \<lparr>tw_reduced = False, tw_text = take k s, tw_done = False, tw_timer = Some k\<rparr>"
    if "1 \<le> k" "k < length s" for k
    using that tw_ticks_running [of 0 k s False "[]" False] by (simp add: tw_mount_off)
  show b: "tw_ticks s (length s) (tw_mount s False) =
      \<lparr>tw_reduced = False, tw_text = s, tw_done = True, tw_timer = None\<rparr>"
    if "1 \<le> length s"
  proof -
    from that obtain n where n: "length s = Suc n"
      by (cases "length s") simp_all
    from tw_ticks_finishing [of 0 n s False "[]" False] n show ?thesis
      by (simp add: tw_mount_off)
  qed
  show "tw_text (tw_ticks s k (tw_mount s False)) = take k s" if "1 \<le> k" "k \<le> length s"
  proof (cases "k < length s")
    case True
    with that a show ?thesis by simp
  next
    case False
    with that have "k = length s" by simp
    with that b show ?thesis by simp
  qed
qed

lemma typewriter_abc_reduced_off:
  "tw_text (tw_ticks (js ''abc'') 1 (tw_mount (js ''abc'') False)) = js ''a''"
  "tw_done (tw_ticks (js ''abc'') 1 (tw_mount (js ''abc'') False)) = False"
  "tw_text (tw_ticks (js ''abc'') 3 (tw_mount (js ''abc'') False)) = js ''abc''"
  "tw_done (tw_ticks (js ''abc'') 3 (tw_mount (js ''abc'') False)) = True"
  by (simp_all add: tw_mount_off tw_tick_def js_def numeral_3_eq_3)

text \<open>
  Should \<open>j\<close> firings of the first interval, fewer than the length of the headline,
  precede the render that makes the preference true, the text stays at that prefix.
\<close>

lemma typewriter_reduced_motion_racing:
  assumes "j < length s"
  shows "tw_ticks s k (tw_setReduced True (tw_ticks s j (tw_effect (tw_first_render s))))
       = \<lparr>tw_reduced = True, tw_text = take j s, tw_done = False, tw_timer = None\<rparr>"
proof -
  have "tw_effect (tw_first_render s)
      = \<lparr>tw_reduced = False, tw_text = [], tw_done = False, tw_timer = Some 0\<rparr>"
    by (simp add: tw_effect_def tw_first_render_def)
  with tw_ticks_running [of 0 j s False "[]" False] assms
  have "tw_ticks s j (tw_effect (tw_first_render s))
      = \<lparr>tw_reduced = False, tw_text = take j s, tw_done = False, tw_timer = Some j\<rparr>"
    by simp
  then have "tw_setReduced True (tw_ticks s j (tw_effect (tw_first_render s)))
      = \<lparr>tw_reduced = True, tw_text = take j s, tw_done = False, tw_timer = None\<rparr>"
    by (simp add: tw_setReduced_def tw_effect_def)
  then show ?thesis
    by (simp add: tw_ticks_stopped)
qed

text \<open>
  C6. With reduced motion off the claim holds (\<open>typewriter_reduced_off\<close>, and
  \<open>typewriter_abc_reduced_off\<close> for \<^verbatim>\<open>"abc"\<close>). With reduced motion on it does not: the
  preference is false in the first render, where the initial values of the text and of
  \<^verbatim>\<open>done\<close> are taken, and the effect of the next render only returns. After mounting
  under reduced motion, and after any number of timer periods, the text is empty,
  \<^verbatim>\<open>done\<close> is false and no interval is running; for \<^verbatim>\<open>"abc"\<close> the text is never \<^verbatim>\<open>"abc"\<close>.
\<close>

theorem typewriter_reduced_motion_blank:
  "tw_ticks s k (tw_mount s True)
     = \<lparr>tw_reduced = True, tw_text = [], tw_done = False, tw_timer = None\<rparr>
   \<and> tw_text (tw_ticks (js ''abc'') k (tw_mount (js ''abc'') True)) \<noteq> js ''abc''
   \<and> \<not> tw_done (tw_ticks (js ''abc'') k (tw_mount (js ''abc'') True))"
  by (simp add: tw_mount_on tw_ticks_stopped js_def)

end
